theory Spec2Isabelle
  imports Complex_Main
begin

section \<open>JavaScript arrays with holes\<close>

text \<open>
  The accumulator of the packer is a JavaScript array written by index
  (\<^verbatim>\<open>acc[currentColumn] = ...\<close>). Writing past the end extends the array and leaves
  holes; reading a hole or past the end gives \<^verbatim>\<open>undefined\<close>. An array is a list of
  optional entries, \<open>None\<close> being a hole.
\<close>

type_synonym 'a js_array = "'a option list"

definition js_get :: "'a js_array \<Rightarrow> nat \<Rightarrow> 'a option" where
  "js_get xs i = (if i < length xs then xs ! i else None)"

definition js_set :: "'a js_array \<Rightarrow> nat \<Rightarrow> 'a \<Rightarrow> 'a js_array" where
  "js_set xs i v =
     (if i < length xs then xs[i := Some v]
      else xs @ replicate (i - length xs) None @ [Some v])"

text \<open>\<^verbatim>\<open>(acc[k] || [])\<close>: an array is truthy, so only \<^verbatim>\<open>undefined\<close> gives \<^verbatim>\<open>[]\<close>.\<close>

definition column_at :: "nat list js_array \<Rightarrow> nat \<Rightarrow> nat list" where
  "column_at acc k = (case js_get acc k of None \<Rightarrow> [] | Some c \<Rightarrow> c)"

text \<open>
  \<^verbatim>\<open>columns.map(...)\<close> in the render visits the entries that are present and skips
  the holes: these are the columns that are rendered.
\<close>

definition rendered_columns :: "nat list js_array \<Rightarrow> nat list list" where
  "rendered_columns cols = List.map_filter id cols"

section \<open>The column packer (the reducer of \<^verbatim>\<open>MenuContainer\<close>)\<close>

text \<open>
  Heights are the \<^verbatim>\<open>height\<close> of \<^verbatim>\<open>getBoundingClientRect()\<close>; they are taken as real
  numbers (rounding of doubles is not modelled). The variables \<^verbatim>\<open>columnHeight\<close> and
  \<^verbatim>\<open>currentColumn\<close> are closed over and mutated by the reducer, \<^verbatim>\<open>acc\<close> is its
  accumulator: the three are threaded through the loop.
\<close>

record pack_state =
  columnHeight :: real
  currentColumn :: nat
  acc :: "nat list js_array"

definition reducer :: "real \<Rightarrow> pack_state \<Rightarrow> real \<Rightarrow> nat \<Rightarrow> pack_state" where
  "reducer maxHeight s height idx =
     (let s1 = (if height + columnHeight s \<le> maxHeight
                then s\<lparr>columnHeight := columnHeight s + height\<rparr>
                else s\<lparr>columnHeight := height, currentColumn := currentColumn s + 1\<rparr>)
      in s1\<lparr>acc := js_set (acc s1) (currentColumn s1)
                        (column_at (acc s1) (currentColumn s1) @ [idx])\<rparr>)"

text \<open>\<^verbatim>\<open>Array.prototype.reduce\<close> over a dense array, from index \<open>idx\<close> on.\<close>

fun reduce_from :: "real \<Rightarrow> pack_state \<Rightarrow> nat \<Rightarrow> real list \<Rightarrow> pack_state" where
  "reduce_from maxHeight s idx [] = s"
| "reduce_from maxHeight s idx (cur # rest) =
     reduce_from maxHeight (reducer maxHeight s cur idx) (Suc idx) rest"

definition pack_init :: pack_state where
  "pack_init = \<lparr>columnHeight = 0, currentColumn = 0, acc = []\<rparr>"

definition pack_run :: "real list \<Rightarrow> real \<Rightarrow> pack_state" where
  "pack_run heights maxHeight = reduce_from maxHeight pack_init 0 heights"

definition pack :: "real list \<Rightarrow> real \<Rightarrow> nat list js_array" where
  "pack heights maxHeight = acc (pack_run heights maxHeight)"

text \<open>
  \<^verbatim>\<open>reduce\<close> on an array that may have holes: a hole is skipped, and the index
  passed to the reducer still counts it.
\<close>

fun reduce_refs_from :: "real \<Rightarrow> pack_state \<Rightarrow> nat \<Rightarrow> real js_array \<Rightarrow> pack_state" where
  "reduce_refs_from maxHeight s idx [] = s"
| "reduce_refs_from maxHeight s idx (None # rest) = reduce_refs_from maxHeight s (Suc idx) rest"
| "reduce_refs_from maxHeight s idx (Some cur # rest) =
     reduce_refs_from maxHeight (reducer maxHeight s cur idx) (Suc idx) rest"

definition pack_refs :: "real js_array \<Rightarrow> real \<Rightarrow> nat list js_array" where
  "pack_refs refs maxHeight = acc (reduce_refs_from maxHeight pack_init 0 refs)"

section \<open>The layout effect of \<^verbatim>\<open>MenuContainer\<close>\<close>

text \<open>
  The component state: the two \<^verbatim>\<open>useState\<close> cells and the \<^verbatim>\<open>childrenRefs\<close> registry.
  The registry is an array written by index (it can have holes); an element in it is
  represented by the height of its bounding box.
  \<^verbatim>\<open>childrenRefs.current\<close> is initialised to an array and never reassigned, so the test
  \<^verbatim>\<open>!childrenRefs.current\<close> of the effect is always false.
\<close>

record menu_container =
  hasCalculatedColumns :: bool
  columns :: "nat list js_array option"
  childrenRefs :: "real js_array"

definition maxHeight_of :: "real \<Rightarrow> real \<Rightarrow> real" where
  "maxHeight_of height top' = 0.8 * (height - top')"

text \<open>
  The body of the effect. \<open>None\<close> is the early \<^verbatim>\<open>return\<close> (nothing computed, no state
  set, no cleanup registered); \<^verbatim>\<open>!top\<close> holds of the number \<open>0\<close>. The source's
  \<^verbatim>\<open>top\<close> is written \<open>top'\<close>.
\<close>

definition layoutEffect :: "real \<Rightarrow> real \<Rightarrow> menu_container \<Rightarrow> menu_container option" where
  "layoutEffect height top' st =
     (if top' = 0 then None
      else Some (st\<lparr>columns := Some (pack_refs (childrenRefs st) (maxHeight_of height top')),
                    hasCalculatedColumns := True\<rparr>))"











section \<open>The \<^verbatim>\<open>App\<close> controls\<close>

datatype Align = left | center | right

record app =
  itemsCount :: int
  align :: Align

definition app_init :: app where
  "app_init = \<lparr>itemsCount = 1, align = left\<rparr>"

text \<open>\<^verbatim>\<open>value.replace(/\D+/g, '')\<close> keeps the characters \<^verbatim>\<open>0\<close> to \<^verbatim>\<open>9\<close>.\<close>

definition is_digit :: "char \<Rightarrow> bool" where
  "is_digit c = (48 \<le> (of_char c :: nat) \<and> (of_char c :: nat) \<le> 57)"

definition strip_non_digits :: "string \<Rightarrow> string" where
  "strip_non_digits s = filter is_digit s"

text \<open>\<^verbatim>\<open>Number\<close> of a string of decimal digits (as an exact integer).\<close>

definition Number_of_digits :: "string \<Rightarrow> int" where
  "Number_of_digits s = foldl (\<lambda>n c. 10 * n + (int (of_char c) - 48)) 0 s"

datatype app_event =
    Remover_item
  | Adicionar_item
  | Input_change string
  | Set_align Align

fun app_step :: "app \<Rightarrow> app_event \<Rightarrow> app" where
  "app_step a Remover_item = a\<lparr>itemsCount := itemsCount a - 1\<rparr>"
| "app_step a Adicionar_item = a\<lparr>itemsCount := itemsCount a + 1\<rparr>"
| "app_step a (Input_change v) =
     a\<lparr>itemsCount := Number_of_digits
          (let d = strip_non_digits v in if d = [] then ''0'' else d)\<rparr>"
| "app_step a (Set_align al) = a\<lparr>align := al\<rparr>"

section \<open>The dropdown context lookup\<close>

datatype error = Error string

text \<open>
  \<^verbatim>\<open>use(DropdownContext)\<close> gives the provided store or \<^verbatim>\<open>null\<close>; the argument is that
  value. The function returns the variable it tested.
\<close>

definition useDropdownContext :: "'store option \<Rightarrow> error + 'store option" where
  "useDropdownContext dropdownContext =
     (if dropdownContext = None
      then Inl (Error ''useDropdownContext hook must be used within DropdownProvider.'')
      else Inr dropdownContext)"

section \<open>Invariants of the packer loop\<close>

text \<open>The array never extends past the current column.\<close>

definition acc_bounded :: "pack_state \<Rightarrow> bool" where
  "acc_bounded s = (length (acc s) \<le> Suc (currentColumn s))"

text \<open>
  After the first item the array ends at the current column, and that entry is present.
\<close>

definition acc_tight :: "pack_state \<Rightarrow> bool" where
  "acc_tight s =
     (length (acc s) = Suc (currentColumn s) \<and> js_get (acc s) (currentColumn s) \<noteq> None)"

text \<open>A column fits the budget, or it is a single item.\<close>

definition column_ok :: "real list \<Rightarrow> real \<Rightarrow> nat list \<Rightarrow> bool" where
  "column_ok H B col = (sum_list (map (\<lambda>i. H ! i) col) \<le> B \<or> length col = 1)"

text \<open>
  Every column written so far is \<open>column_ok\<close>, and \<^verbatim>\<open>columnHeight\<close> is the sum of the
  heights of the items of the current column.
\<close>

definition pack_inv :: "real list \<Rightarrow> real \<Rightarrow> pack_state \<Rightarrow> bool" where
  "pack_inv H B s =
     (acc_bounded s \<and>
      (\<forall>col \<in> set (rendered_columns (acc s)). column_ok H B col) \<and>
      sum_list (map (\<lambda>i. H ! i) (column_at (acc s) (currentColumn s))) = columnHeight s)"

text \<open>
  Two runs over the same heights, \<open>s1\<close> under the smaller budget and \<open>s2\<close> under the
  larger: \<open>s1\<close> is at least \<open>k\<close> columns further, and where it is exactly \<open>k\<close> further its
  current column is at least as full.
\<close>

definition ahead :: "nat \<Rightarrow> pack_state \<Rightarrow> pack_state \<Rightarrow> bool" where
  "ahead k s1 s2 =
     (0 \<le> columnHeight s1 \<and>
      (currentColumn s2 + k < currentColumn s1 \<or>
       currentColumn s2 + k = currentColumn s1 \<and> columnHeight s2 \<le> columnHeight s1))"

text \<open>Position 0 is a hole and item 0 opens the column at position 1.\<close>

definition hole_first :: "pack_state \<Rightarrow> bool" where
  "hole_first s =
     (1 \<le> currentColumn s \<and> 2 \<le> length (acc s) \<and> js_get (acc s) 0 = None \<and>
      (\<exists>rest. js_get (acc s) 1 = Some (0 # rest)))"

section \<open>Array and reducer lemmas\<close>

lemma length_js_set: "length (js_set xs i v) = max (length xs) (Suc i)"
  by (auto simp: js_set_def)

lemma js_get_js_set: "js_get (js_set xs i v) k = (if k = i then Some v else js_get xs k)"
  by (auto simp: js_get_def js_set_def nth_append)

lemma column_at_js_set: "column_at (js_set xs i v) k = (if k = i then v else column_at xs k)"
  by (simp add: column_at_def js_get_js_set)

lemma columnHeight_reducer:
  "columnHeight (reducer B s h idx) = (if columnHeight s + h \<le> B then columnHeight s + h else h)"
  by (simp add: reducer_def Let_def add.commute)

lemma currentColumn_reducer:
  "currentColumn (reducer B s h idx) =
     (if columnHeight s + h \<le> B then currentColumn s else Suc (currentColumn s))"
  by (simp add: reducer_def Let_def add.commute)

lemma acc_reducer:
  "acc (reducer B s h idx) =
     js_set (acc s) (currentColumn (reducer B s h idx))
       (column_at (acc s) (currentColumn (reducer B s h idx)) @ [idx])"
  by (simp add: reducer_def Let_def add.commute)

lemma reduce_from_append:
  "reduce_from B s idx (xs @ ys) = reduce_from B (reduce_from B s idx xs) (idx + length xs) ys"
  by (induction xs arbitrary: s idx) simp_all

lemma acc_bounded_reducer: "acc_bounded s \<Longrightarrow> acc_bounded (reducer B s h idx)"
  unfolding acc_bounded_def
  by (subst acc_reducer) (simp add: length_js_set currentColumn_reducer)

lemma acc_bounded_reduce_from: "acc_bounded s \<Longrightarrow> acc_bounded (reduce_from B s idx hs)"
  by (induction hs arbitrary: s idx) (simp_all add: acc_bounded_reducer)

lemma acc_bounded_init: "acc_bounded pack_init"
  by (simp add: acc_bounded_def pack_init_def)

lemma column_at_beyond: "length xs \<le> k \<Longrightarrow> column_at xs k = []"
  by (simp add: column_at_def js_get_def)

lemma pack_run_snoc: "pack_run (hs @ [h]) B = reducer B (pack_run hs B) h (length hs)"
  by (simp add: pack_run_def reduce_from_append)

lemma rendered_columns_append:
  "rendered_columns (xs @ ys) = rendered_columns xs @ rendered_columns ys"
  by (simp add: rendered_columns_def map_filter_def)

lemma rendered_columns_holes: "rendered_columns (replicate n None) = []"
  by (simp add: rendered_columns_def map_filter_def)

lemma rendered_columns_single: "rendered_columns [Some c] = [c]"
  by (simp add: rendered_columns_def map_filter_def)

lemma rendered_js_set_last:
  assumes "length xs \<le> Suc i"
  shows "concat (rendered_columns (js_set xs i (column_at xs i @ [x]))) =
         concat (rendered_columns xs) @ [x]"
proof (cases "i < length xs")
  case True
  with assms have i: "i = length xs - 1" and ne: "xs \<noteq> []" by auto
  then obtain ys y where xs: "xs = ys @ [y]" by (metis append_butlast_last_id)
  with i have i': "i = length ys" by simp
  show ?thesis
    by (cases y)
      (simp_all add: xs i' js_set_def column_at_def js_get_def
        rendered_columns_append rendered_columns_def map_filter_def)
next
  case False
  then show ?thesis
    by (simp add: js_set_def column_at_beyond rendered_columns_append
        rendered_columns_holes rendered_columns_single)
qed

lemma concat_rendered_reducer:
  assumes "acc_bounded s"
  shows "concat (rendered_columns (acc (reducer B s h idx))) =
         concat (rendered_columns (acc s)) @ [idx]"
proof -
  have "length (acc s) \<le> Suc (currentColumn (reducer B s h idx))"
    using assms by (simp add: acc_bounded_def currentColumn_reducer)
  then show ?thesis
    by (subst acc_reducer) (rule rendered_js_set_last)
qed

lemma concat_rendered_reduce_from:
  "acc_bounded s \<Longrightarrow>
   concat (rendered_columns (acc (reduce_from B s idx hs))) =
   concat (rendered_columns (acc s)) @ [idx ..< idx + length hs]"
proof (induction hs arbitrary: s idx)
  case Nil
  then show ?case by simp
next
  case (Cons h hs)
  have "concat (rendered_columns (acc (reduce_from B s idx (h # hs)))) =
        concat (rendered_columns (acc (reducer B s h idx))) @ [Suc idx ..< Suc idx + length hs]"
    using Cons.IH [OF acc_bounded_reducer [OF Cons.prems]] by simp
  also have "\<dots> = concat (rendered_columns (acc s)) @ idx # [Suc idx ..< Suc idx + length hs]"
    by (simp add: concat_rendered_reducer [OF Cons.prems])
  also have "idx # [Suc idx ..< Suc idx + length hs] = [idx ..< idx + length (h # hs)]"
    by (subst (2) upt_rec) (simp del: upt_Suc)
  finally show ?case .
qed

lemma set_rendered_columns: "set (rendered_columns xs) = {c. Some c \<in> set xs}"
  by (induction xs) (auto simp: rendered_columns_def map_filter_def)

lemma set_js_set: "set (js_set xs i v) \<subseteq> insert (Some v) (insert None (set xs))"
proof (cases "i < length xs")
  case True
  then show ?thesis
    using set_update_subset_insert [of xs i "Some v"] by (auto simp: js_set_def)
next
  case False
  then show ?thesis by (auto simp: js_set_def)
qed

lemma rendered_js_set_subset:
  "set (rendered_columns (js_set xs i v)) \<subseteq> insert v (set (rendered_columns xs))"
  using set_js_set [of xs i v] by (auto simp: set_rendered_columns)

lemma pack_inv_reducer:
  assumes inv: "pack_inv H B s" and h: "H ! idx = h"
  shows "pack_inv H B (reducer B s h idx)"
proof -
  let ?s' = "reducer B s h idx"
  let ?c = "column_at (acc s) (currentColumn ?s') @ [idx]"
  from inv have bnd: "acc_bounded s"
    and cols: "\<forall>col \<in> set (rendered_columns (acc s)). column_ok H B col"
    and cur: "sum_list (map (\<lambda>i. H ! i) (column_at (acc s) (currentColumn s))) = columnHeight s"
    by (simp_all add: pack_inv_def)
  have acc': "acc ?s' = js_set (acc s) (currentColumn ?s') ?c"
    by (rule acc_reducer)
  have fresh: "column_at (acc s) (Suc (currentColumn s)) = []"
    using bnd by (simp add: acc_bounded_def column_at_beyond)
  have sum: "sum_list (map (\<lambda>i. H ! i) ?c) = columnHeight ?s'"
    using cur h fresh by (simp add: currentColumn_reducer columnHeight_reducer)
  have ok: "column_ok H B ?c"
  proof (cases "columnHeight s + h \<le> B")
    case True
    with sum show ?thesis by (simp add: column_ok_def columnHeight_reducer)
  next
    case False
    then show ?thesis by (simp add: column_ok_def currentColumn_reducer fresh)
  qed
  have "\<forall>col \<in> set (rendered_columns (acc ?s')). column_ok H B col"
    using rendered_js_set_subset [of "acc s" "currentColumn ?s'" ?c] cols ok
    unfolding acc' by blast
  moreover have "sum_list (map (\<lambda>i. H ! i) (column_at (acc ?s') (currentColumn ?s'))) = columnHeight ?s'"
    unfolding acc' column_at_js_set using sum by simp
  ultimately show ?thesis
    using acc_bounded_reducer [OF bnd] by (simp add: pack_inv_def)
qed

lemma pack_inv_reduce_from:
  "pack_inv H B s \<Longrightarrow> drop idx H = hs \<Longrightarrow> pack_inv H B (reduce_from B s idx hs)"
proof (induction hs arbitrary: s idx)
  case Nil
  then show ?case by simp
next
  case (Cons h hs)
  from Cons.prems(2) have lt: "idx < length H"
    by (cases "idx < length H") simp_all
  from Cons_nth_drop_Suc [OF lt] Cons.prems(2)
  have h: "H ! idx = h" and rest: "drop (Suc idx) H = hs" by simp_all
  show ?case
    using Cons.IH [OF pack_inv_reducer [OF Cons.prems(1) h] rest] by simp
qed

lemma pack_inv_init: "pack_inv H B pack_init"
  by (simp add: pack_inv_def acc_bounded_def pack_init_def column_at_def js_get_def
      rendered_columns_def map_filter_def)

section \<open>Column counts under two budgets\<close>

lemma ahead_reducer:
  assumes "B1 \<le> B2" and "0 \<le> h" and "ahead k s1 s2"
  shows "ahead k (reducer B1 s1 h i) (reducer B2 s2 h j)"
  using assms unfolding ahead_def columnHeight_reducer currentColumn_reducer
  by (cases "columnHeight s1 + h \<le> B1"; cases "columnHeight s2 + h \<le> B2") auto

lemma ahead_reduce_from:
  "B1 \<le> B2 \<Longrightarrow> \<forall>h \<in> set hs. 0 \<le> h \<Longrightarrow> ahead k s1 s2 \<Longrightarrow>
   ahead k (reduce_from B1 s1 i hs) (reduce_from B2 s2 j hs)"
proof (induction hs arbitrary: s1 s2 i j)
  case Nil
  then show ?case by simp
next
  case (Cons h hs)
  from Cons.prems have "ahead k (reducer B1 s1 h i) (reducer B2 s2 h j)"
    by (simp add: ahead_reducer)
  with Cons.IH [of "reducer B1 s1 h i" "reducer B2 s2 h j" "Suc i" "Suc j"] Cons.prems
  show ?case by simp
qed

lemma ahead_currentColumn: "ahead k s1 s2 \<Longrightarrow> currentColumn s2 + k \<le> currentColumn s1"
  by (auto simp: ahead_def)

lemma length_rendered_js_set:
  "length (rendered_columns (js_set xs i v)) =
     (if i < length xs then (if xs ! i = None then Suc (length (rendered_columns xs))
                             else length (rendered_columns xs))
      else Suc (length (rendered_columns xs)))"
proof (cases "i < length xs")
  case True
  then have xs: "xs = take i xs @ xs ! i # drop (Suc i) xs"
    by (simp add: id_take_nth_drop)
  have "js_set xs i v = take i xs @ Some v # drop (Suc i) xs"
    using True by (simp add: js_set_def upd_conv_take_nth_drop)
  then have "length (rendered_columns (js_set xs i v)) =
        length (rendered_columns (take i xs)) + 1 + length (rendered_columns (drop (Suc i) xs))"
    by (simp add: rendered_columns_append rendered_columns_def map_filter_def)
  moreover have "length (rendered_columns xs) =
        length (rendered_columns (take i xs)) + (if xs ! i = None then 0 else 1) +
        length (rendered_columns (drop (Suc i) xs))"
    by (subst xs) (auto simp: rendered_columns_append rendered_columns_def map_filter_def)
  ultimately show ?thesis using True by simp
next
  case False
  then show ?thesis
    by (simp add: js_set_def rendered_columns_append rendered_columns_holes rendered_columns_single)
qed

lemma acc_tight_reducer:
  assumes "acc_tight s"
  shows "acc_tight (reducer B s h idx) \<and>
         length (rendered_columns (acc (reducer B s h idx))) + currentColumn s =
         length (rendered_columns (acc s)) + currentColumn (reducer B s h idx)"
proof -
  let ?s' = "reducer B s h idx"
  from assms have len: "length (acc s) = Suc (currentColumn s)"
    and cur: "acc s ! currentColumn s \<noteq> None"
    by (auto simp: acc_tight_def js_get_def)
  have acc': "acc ?s' = js_set (acc s) (currentColumn ?s') (column_at (acc s) (currentColumn ?s') @ [idx])"
    by (rule acc_reducer)
  have "acc_tight ?s'"
    unfolding acc_tight_def acc' js_get_js_set length_js_set
    using len by (simp add: currentColumn_reducer)
  moreover have "length (rendered_columns (acc ?s')) + currentColumn s =
         length (rendered_columns (acc s)) + currentColumn ?s'"
    unfolding acc' length_rendered_js_set using len cur
    by (auto simp: currentColumn_reducer)
  ultimately show ?thesis by simp
qed

lemma acc_tight_reduce_from:
  "acc_tight s \<Longrightarrow>
   acc_tight (reduce_from B s idx hs) \<and>
   length (rendered_columns (acc (reduce_from B s idx hs))) + currentColumn s =
   length (rendered_columns (acc s)) + currentColumn (reduce_from B s idx hs)"
proof (induction hs arbitrary: s idx)
  case Nil
  then show ?case by simp
next
  case (Cons h hs)
  from acc_tight_reducer [OF Cons.prems, of B h idx]
  have t: "acc_tight (reducer B s h idx)"
    and c: "length (rendered_columns (acc (reducer B s h idx))) + currentColumn s =
            length (rendered_columns (acc s)) + currentColumn (reducer B s h idx)"
    by simp_all
  from Cons.IH [OF t, of "Suc idx"] c show ?case by simp
qed

lemma first_reducer:
  "reducer B pack_init h 0 =
     (if h \<le> B then \<lparr>columnHeight = h, currentColumn = 0, acc = [Some [0]]\<rparr>
      else \<lparr>columnHeight = h, currentColumn = 1, acc = [None, Some [0]]\<rparr>)"
  by (simp add: reducer_def pack_init_def js_set_def column_at_def js_get_def)

lemma acc_tight_first: "acc_tight (reducer B pack_init h 0)"
  by (simp add: first_reducer acc_tight_def js_get_def)

lemma pack_Cons: "pack (h # hs) B = acc (reduce_from B (reducer B pack_init h 0) 1 hs)"
  by (simp add: pack_def pack_run_def)

lemma length_pack_Cons:
  "length (pack (h # hs) B) = Suc (currentColumn (reduce_from B (reducer B pack_init h 0) 1 hs))"
  using acc_tight_reduce_from [of "reducer B pack_init h 0" B 1 hs, OF acc_tight_first]
  by (simp add: pack_Cons acc_tight_def)

lemma length_rendered_pack_Cons:
  "length (rendered_columns (pack (h # hs) B)) =
     (if h \<le> B then Suc (currentColumn (reduce_from B (reducer B pack_init h 0) 1 hs))
      else currentColumn (reduce_from B (reducer B pack_init h 0) 1 hs))"
  using acc_tight_reduce_from [of "reducer B pack_init h 0" B 1 hs, OF acc_tight_first]
  by (simp add: pack_Cons first_reducer rendered_columns_def map_filter_def split: if_splits)

lemma ahead_first:
  assumes "B1 \<le> B2" and "0 \<le> h"
  shows "ahead (if h \<le> B2 \<and> \<not> h \<le> B1 then 1 else 0)
           (reducer B1 pack_init h 0) (reducer B2 pack_init h 0)"
  using assms by (auto simp: first_reducer ahead_def)

lemma pack_monotone_aux:
  assumes "B1 \<le> B2" and "\<forall>h \<in> set H. 0 \<le> h"
  shows "length (pack H B2) \<le> length (pack H B1) \<and>
         length (rendered_columns (pack H B2)) \<le> length (rendered_columns (pack H B1))"
proof (cases H)
  case Nil
  then show ?thesis by (simp add: pack_def pack_run_def)
next
  case (Cons h hs)
  let ?k = "if h \<le> B2 \<and> \<not> h \<le> B1 then 1 else 0 :: nat"
  let ?c1 = "currentColumn (reduce_from B1 (reducer B1 pack_init h 0) 1 hs)"
  let ?c2 = "currentColumn (reduce_from B2 (reducer B2 pack_init h 0) 1 hs)"
  from assms Cons have h: "0 \<le> h" and hs: "\<forall>x \<in> set hs. 0 \<le> x" by simp_all
  have "ahead ?k (reduce_from B1 (reducer B1 pack_init h 0) 1 hs)
                (reduce_from B2 (reducer B2 pack_init h 0) 1 hs)"
    by (rule ahead_reduce_from [OF assms(1) hs ahead_first [OF assms(1) h]])
  then have le: "?c2 + ?k \<le> ?c1" by (rule ahead_currentColumn)
  have "length (pack H B2) \<le> length (pack H B1)"
    using le by (simp add: Cons length_pack_Cons split: if_splits)
  moreover have "length (rendered_columns (pack H B2)) \<le> length (rendered_columns (pack H B1))"
    using le assms(1) by (simp add: Cons length_rendered_pack_Cons split: if_splits)
  ultimately show ?thesis by simp
qed

text \<open>
  The heights of bounding boxes are non-negative. With a negative height in the list a
  larger budget can give more columns, so the comparison of budgets is about
  non-negative heights only.
\<close>

lemma pack_negative_height_not_monotone:
  "length (pack [3, - 3 / 2, 2, 1 / 2] 1) = 3 \<and> length (pack [3, - 3 / 2, 2, 1 / 2] 2) = 4"
  by (simp add: pack_def pack_run_def pack_init_def reducer_def js_set_def column_at_def
      js_get_def)

section \<open>The first item over budget\<close>

lemma hole_first_reducer:
  assumes "hole_first s"
  shows "hole_first (reducer B s h idx)"
proof -
  let ?s' = "reducer B s h idx"
  from assms obtain rest where cc: "1 \<le> currentColumn s" and len: "2 \<le> length (acc s)"
    and g0: "js_get (acc s) 0 = None" and g1: "js_get (acc s) 1 = Some (0 # rest)"
    by (auto simp: hole_first_def)
  have cc': "1 \<le> currentColumn ?s'"
    using cc by (simp add: currentColumn_reducer)
  have acc': "acc ?s' = js_set (acc s) (currentColumn ?s') (column_at (acc s) (currentColumn ?s') @ [idx])"
    by (rule acc_reducer)
  have "2 \<le> length (acc ?s')"
    unfolding acc' length_js_set using len by simp
  moreover have "js_get (acc ?s') 0 = None"
    unfolding acc' js_get_js_set using cc' g0 by simp
  moreover have "\<exists>r. js_get (acc ?s') 1 = Some (0 # r)"
  proof (cases "currentColumn ?s' = 1")
    case True
    have "column_at (acc s) 1 = 0 # rest"
      using g1 by (simp add: column_at_def)
    then have "js_get (acc ?s') 1 = Some (0 # (rest @ [idx]))"
      unfolding acc' js_get_js_set using True by simp
    then show ?thesis by blast
  next
    case False
    then have "js_get (acc ?s') 1 = Some (0 # rest)"
      unfolding acc' js_get_js_set using g1 by simp
    then show ?thesis by blast
  qed
  ultimately show ?thesis
    using cc' by (simp add: hole_first_def)
qed

lemma hole_first_reduce_from: "hole_first s \<Longrightarrow> hole_first (reduce_from B s idx hs)"
  by (induction hs arbitrary: s idx) (simp_all add: hole_first_reducer)

lemma hole_first_shape:
  assumes "hole_first s"
  shows "\<exists>rest cols. acc s = None # Some (0 # rest) # cols"
proof -
  from assms obtain rest where len: "2 \<le> length (acc s)"
    and g0: "js_get (acc s) 0 = None" and g1: "js_get (acc s) 1 = Some (0 # rest)"
    by (auto simp: hole_first_def)
  from len obtain a b cols where shape: "acc s = a # b # cols"
    by (cases "acc s"; cases "tl (acc s)") auto
  from g0 g1 shape have "a = None" and "b = Some (0 # rest)"
    by (simp_all add: js_get_def)
  with shape show ?thesis by blast
qed

section \<open>The item count of \<^verbatim>\<open>App\<close>\<close>

lemma foldl_digits_nonneg:
  "\<forall>c \<in> set s. is_digit c \<Longrightarrow> 0 \<le> n \<Longrightarrow>
   0 \<le> foldl (\<lambda>n c. 10 * n + (int (of_char c) - 48)) n s"
proof (induction s arbitrary: n)
  case Nil
  then show ?case by simp
next
  case (Cons c s)
  from Cons.prems have "0 \<le> 10 * n + (int (of_char c) - 48)"
    by (simp add: is_digit_def)
  with Cons show ?case by simp
qed

lemma Number_of_digits_nonneg: "\<forall>c \<in> set s. is_digit c \<Longrightarrow> 0 \<le> Number_of_digits s"
  unfolding Number_of_digits_def by (rule foldl_digits_nonneg) simp_all

lemma input_change_nonneg: "0 \<le> itemsCount (app_step a (Input_change v))"
proof (cases "strip_non_digits v = []")
  case True
  then show ?thesis by (simp add: Number_of_digits_def)
next
  case False
  have "\<forall>c \<in> set (strip_non_digits v). is_digit c"
    by (simp add: strip_non_digits_def)
  then show ?thesis
    using False by (simp add: Number_of_digits_nonneg)
qed

lemma adicionar_nonneg: "0 \<le> itemsCount a \<Longrightarrow> 0 \<le> itemsCount (app_step a Adicionar_item)"
  by simp

section \<open>The registry and the effect\<close>

lemma reduce_refs_from_dense:
  "reduce_refs_from B s idx (map Some hs) = reduce_from B s idx hs"
  by (induction hs arbitrary: s idx) simp_all

lemma pack_refs_dense: "pack_refs (map Some H) B = pack H B"
  by (simp add: pack_refs_def pack_def pack_run_def reduce_refs_from_dense)










section \<open>Properties\<close>

text \<open>
  C1. The packer is one left-to-right pass. It starts with running height 0, column
  counter 0 and no column. Processing the item of index \<open>length hs\<close> and height \<open>h\<close>
  after the items \<open>hs\<close>: if the running height plus \<open>h\<close> is at most the budget, the
  item is appended to the current column and \<open>h\<close> is added to the running height;
  otherwise the counter moves to the next column, which holds that item alone, and the
  running height becomes \<open>h\<close>. No other column changes.
\<close>

theorem pack_single_pass:
  "pack_run [] B = \<lparr>columnHeight = 0, currentColumn = 0, acc = []\<rparr> \<and>
   (let s = pack_run hs B; s' = pack_run (hs @ [h]) B in
     if columnHeight s + h \<le> B
     then columnHeight s' = columnHeight s + h \<and> currentColumn s' = currentColumn s \<and>
          (\<forall>k. column_at (acc s') k =
                 (if k = currentColumn s then column_at (acc s) k @ [length hs]
                  else column_at (acc s) k))
     else columnHeight s' = h \<and> currentColumn s' = currentColumn s + 1 \<and>
          (\<forall>k. column_at (acc s') k =
                 (if k = currentColumn s + 1 then [length hs] else column_at (acc s) k)))"
proof -
  let ?s = "pack_run hs B"
  have b: "length (acc ?s) \<le> Suc (currentColumn ?s)"
    using acc_bounded_reduce_from [OF acc_bounded_init] by (simp add: pack_run_def acc_bounded_def)
  then have fresh: "column_at (acc ?s) (Suc (currentColumn ?s)) = []"
    by (simp add: column_at_beyond)
  have init: "pack_run [] B = \<lparr>columnHeight = 0, currentColumn = 0, acc = []\<rparr>"
    by (simp add: pack_run_def pack_init_def)
  show ?thesis
  proof (cases "columnHeight ?s + h \<le> B")
    case True
    then show ?thesis
      unfolding Let_def pack_run_snoc
      by (simp add: init columnHeight_reducer currentColumn_reducer
          acc_reducer [of B ?s h] column_at_js_set)
  next
    case False
    then show ?thesis
      unfolding Let_def pack_run_snoc
      by (simp add: init columnHeight_reducer currentColumn_reducer
          acc_reducer [of B ?s h] column_at_js_set fresh)
  qed
qed

text \<open>
  C2. The columns of the packed array, read in order, are the indices \<open>0\<close> to
  \<open>N - 1\<close> in source order: nothing dropped, duplicated or reordered.
\<close>

theorem pack_concat:
  "concat (rendered_columns (pack H B)) = [0 ..< length H]"
  using concat_rendered_reduce_from [OF acc_bounded_init, of B 0 H]
  by (simp add: pack_def pack_run_def pack_init_def rendered_columns_def map_filter_def)

text \<open>
  C3. Every column the packer produces has a sum of item heights of at most the
  budget, or holds exactly one item.
\<close>

theorem pack_column_budget:
  "\<forall>col \<in> set (rendered_columns (pack H B)).
     sum_list (map (\<lambda>i. H ! i) col) \<le> B \<or> length col = 1"
  using pack_inv_reduce_from [OF pack_inv_init, of 0 H H B]
  by (simp add: pack_def pack_run_def pack_inv_def column_ok_def)

theorem pack_column_budget_witness:
  "rendered_columns (pack [100, 100, 100] 250) = [[0, 1], [2]] \<and>
   (sum_list (map (\<lambda>i. [100, 100, 100 :: real] ! i) [0, 1]) \<le> 250 \<or> length [0::nat, 1] = 1) \<and>
   (sum_list (map (\<lambda>i. [100, 100, 100 :: real] ! i) [2]) \<le> 250 \<or> length [2::nat] = 1)"
proof -
  have e: "rendered_columns (pack [100, 100, 100] 250) = [[0, 1], [2]]"
    by (simp add: pack_def pack_run_def pack_init_def reducer_def js_set_def column_at_def
        js_get_def rendered_columns_def map_filter_def)
  show ?thesis
    using pack_column_budget [of "[100, 100, 100]" 250] unfolding e by simp
qed

text \<open>
  C5. For non-negative heights, a larger budget never gives more columns: neither
  a longer array nor more rendered columns.
\<close>

theorem pack_monotone:
  "B1 \<le> B2 \<Longrightarrow> \<forall>h \<in> set H. 0 \<le> h \<Longrightarrow>
   length (pack H B2) \<le> length (pack H B1) \<and>
   length (rendered_columns (pack H B2)) \<le> length (rendered_columns (pack H B1))"
  by (rule pack_monotone_aux)

theorem pack_monotone_witness:
  "(250::real) \<le> 300 \<and> list_all (\<lambda>h. 0 \<le> h) [100, 100, 100 :: real] \<and>
   length (pack [100, 100, 100] 300) \<le> length (pack [100, 100, 100] 250) \<and>
   length (rendered_columns (pack [100, 100, 100] 300)) \<le>
   length (rendered_columns (pack [100, 100, 100] 250))"
proof -
  have b: "(250::real) \<le> 300" by simp
  have h: "\<forall>h \<in> set [100, 100, 100 :: real]. 0 \<le> h" by simp
  show ?thesis
    using b pack_monotone [OF b h] by simp
qed

text \<open>
  C4. The empty item list gives the empty array: no column at all. A single item gives
  exactly one column, which holds that item, whatever its height; heights \<open>[300]\<close>
  against the budget \<open>250\<close> give the columns \<open>[[0]]\<close>.
\<close>

theorem pack_boundary:
  "pack [] B = [] \<and> rendered_columns (pack [] B) = [] \<and>
   rendered_columns (pack [h] B) = [[0]] \<and>
   rendered_columns (pack [300] 250) = [[0]]"
proof -
  have one: "rendered_columns (pack [x] C) = [[0]]" for x C
    by (simp add: pack_Cons first_reducer rendered_columns_def map_filter_def)
  have none: "pack [] B = []"
    by (simp add: pack_def pack_run_def pack_init_def)
  have "rendered_columns (pack [] B) = []"
    unfolding none by (simp add: rendered_columns_def map_filter_def)
  with none one [of h B] one [of 300 250] show ?thesis
    by blast
qed

text \<open>
  C10. When the first item is higher than the budget, the packed array starts with a
  hole and item 0 opens the column at position 1.
\<close>

theorem pack_first_oversized:
  "B < h \<Longrightarrow> \<exists>rest cols. pack (h # hs) B = None # Some (0 # rest) # cols"
proof -
  assume "B < h"
  then have "hole_first (reducer B pack_init h 0)"
    by (simp add: first_reducer hole_first_def js_get_def)
  then have "hole_first (reduce_from B (reducer B pack_init h 0) 1 hs)"
    by (rule hole_first_reduce_from)
  then show ?thesis
    unfolding pack_Cons by (rule hole_first_shape)
qed

theorem pack_first_oversized_witness:
  "(40::real) < 44 \<and> (\<exists>rest cols. pack [44, 44] 40 = None # Some (0 # rest) # cols)"
proof -
  have b: "(40::real) < 44" by simp
  show ?thesis
    using b pack_first_oversized [OF b, of "[44]"] by simp
qed

text \<open>
  C6, as the claim states it, fails: with a window of height 150 and the container at
  \<open>top = 200\<close> the budget is \<open>-40\<close>, and the effect packs all the same.
\<close>

theorem layoutEffect_nonpositive_budget_runs:
  "maxHeight_of 150 200 \<le> 0 \<and>
   layoutEffect 150 200
     \<lparr>hasCalculatedColumns = False, columns = None, childrenRefs = [Some 44]\<rparr> =
     Some \<lparr>hasCalculatedColumns = True, columns = Some [None, Some [0]],
           childrenRefs = [Some 44]\<rparr>"
  by (simp add: maxHeight_of_def layoutEffect_def pack_refs_def pack_init_def
      reducer_def js_set_def column_at_def js_get_def)

text \<open>
  C6, amended. The effect returns before computing columns exactly when \<^verbatim>\<open>top\<close> is 0
  (the container is not measured yet); the sign of the budget is not tested.
\<close>

theorem layoutEffect_gate:
  "(layoutEffect height top' st = None) = (top' = 0)"
  by (simp add: layoutEffect_def)




text \<open>
  C8. From the initial state, two clicks on the remove button give an item count of
  \<open>-1\<close>: the decrement has no lower bound.
\<close>

theorem remove_twice_negative:
  "0 \<le> itemsCount app_init \<and>
   itemsCount (app_step (app_step app_init Remover_item) Remover_item) = - 1"
  by (simp add: app_init_def)

text \<open>
  C9. Without a provider value the lookup throws an error whose message names
  \<^verbatim>\<open>DropdownProvider\<close>, and no call returns a null context.
\<close>

theorem useDropdownContext_fails_fast:
  "(useDropdownContext None :: error + 'store option) =
     Inl (Error (''useDropdownContext hook must be used within '' @ ''DropdownProvider'' @ ''.''))
   \<and> (\<forall>ctx :: 'store option. useDropdownContext ctx \<noteq> Inr None)"
  by (simp add: useDropdownContext_def)

end
